theory Spec2Isabelle
  imports Main "HOL-Library.Multiset"
begin

section \<open>The grid-transform engine of App.tsx\<close>

subsection \<open>Data model\<close>

text \<open>
  \<^verbatim>\<open>type Tile = number | null\<close>: a tile value or the empty cell. Tile values are
  integers here (the tiles of the game are powers of two, far below the range in which a
  JavaScript number stops being exact); \<open>None\<close> is \<^verbatim>\<open>null\<close>.
  \<^verbatim>\<open>type Grid = Tile[][]\<close> is a list of rows.
\<close>

type_synonym Tile = "int option"
type_synonym Grid = "Tile list list"

datatype Direction = Up | Down | Left | Right

text \<open>The rotation angles \<^verbatim>\<open>0 | 90 | 180 | 270\<close>.\<close>

datatype Degree = Deg0 | Deg90 | Deg180 | Deg270

text \<open>
  What can go wrong in a run. \<open>TypeError\<close>: a property is read from \<^verbatim>\<open>undefined\<close>
  (\<^verbatim>\<open>map[0].length\<close> on a grid without rows). \<open>OutOfRange\<close>: an element is read past the
  end of a row; JavaScript yields \<^verbatim>\<open>undefined\<close> there, which is no \<open>Tile\<close>, and the
  model stops at that read instead of carrying the value on.
\<close>

datatype error = TypeError | OutOfRange

definition TARGET_TILE :: int where
  "TARGET_TILE = 128"

fun rotateMapDeg :: "Direction \<Rightarrow> Degree" where
  "rotateMapDeg Up = Deg90"
| "rotateMapDeg Right = Deg180"
| "rotateMapDeg Down = Deg270"
| "rotateMapDeg Left = Deg0"

fun revertMapDeg :: "Direction \<Rightarrow> Degree" where
  "revertMapDeg Up = Deg270"
| "revertMapDeg Right = Deg180"
| "revertMapDeg Down = Deg90"
| "revertMapDeg Left = Deg0"

text \<open>The object \<^verbatim>\<open>{ result, isMoved, gained }\<close> returned by the move functions.\<close>

record 'a Moved =
  result :: 'a
  isMoved :: bool
  gained :: int

text \<open>The accumulator \<^verbatim>\<open>{ last, result, gained }\<close> of the reduction in \<^verbatim>\<open>moveRowLeft\<close>.\<close>

record Acc =
  acc_last :: Tile
  acc_result :: "Tile list"
  acc_gained :: int

subsection \<open>Array helpers\<close>

text \<open>Runs the element computations from left to right; the first failure ends the run.\<close>

fun collect :: "(error + 'a) list \<Rightarrow> error + 'a list" where
  "collect [] = Inr []"
| "collect (x # xs) =
     (case x of
        Inl e \<Rightarrow> Inl e
      | Inr v \<Rightarrow> (case collect xs of Inl e \<Rightarrow> Inl e | Inr vs \<Rightarrow> Inr (v # vs)))"

text \<open>\<^verbatim>\<open>Array.from({ length: n }, (_, i) => f(i))\<close>.\<close>

definition arrayFrom :: "nat \<Rightarrow> (nat \<Rightarrow> error + 'a) \<Rightarrow> error + 'a list" where
  "arrayFrom n f = collect (map f [0..<n])"

text \<open>The read \<^verbatim>\<open>map[r][c]\<close>.\<close>

definition cellAt :: "Grid \<Rightarrow> nat \<Rightarrow> nat \<Rightarrow> error + Tile" where
  "cellAt m r c =
     (if length m \<le> r then Inl TypeError
      else if length (m ! r) \<le> c then Inl OutOfRange
      else Inr (m ! r ! c))"

subsection \<open>The pure logic functions\<close>

text \<open>\<^verbatim>\<open>reached\<close>: some cell is non-empty and at least \<open>t\<close>.\<close>

definition reached :: "Grid \<Rightarrow> int \<Rightarrow> bool" where
  "reached m t = list_ex (\<lambda>r. list_ex (\<lambda>v. case v of None \<Rightarrow> False | Some n \<Rightarrow> t \<le> n) r) m"

definition cloneMap :: "Grid \<Rightarrow> Grid" where
  "cloneMap m = map (\<lambda>row. row) m"

text \<open>
  \<^verbatim>\<open>rotateMap\<close>. \<open>R\<close> and \<open>C\<close> are read before the angle is looked at, so a grid without
  rows fails for every angle. The indices \<open>C - c - 1\<close> and \<open>R - r - 1\<close> are never negative,
  because \<open>c < C\<close> and \<open>r < R\<close> in the generators.
\<close>

definition rotateMap :: "Grid \<Rightarrow> Degree \<Rightarrow> error + Grid" where
  "rotateMap m deg =
     (case m of
        [] \<Rightarrow> Inl TypeError
      | row0 # _ \<Rightarrow>
          (let R = length m; C = length row0 in
           case deg of
             Deg0 \<Rightarrow> Inr (cloneMap m)
           | Deg90 \<Rightarrow> arrayFrom C (\<lambda>c. arrayFrom R (\<lambda>r. cellAt m r (C - c - 1)))
           | Deg180 \<Rightarrow> arrayFrom R (\<lambda>r. arrayFrom C (\<lambda>c. cellAt m (R - r - 1) (C - c - 1)))
           | Deg270 \<Rightarrow> arrayFrom C (\<lambda>c. arrayFrom R (\<lambda>r. cellAt m (R - r - 1) c))))"

text \<open>The reducer of \<^verbatim>\<open>moveRowLeft\<close>, one cell at a time.\<close>

definition step :: "Acc \<Rightarrow> Tile \<Rightarrow> Acc" where
  "step acc cell =
     (case cell of
        None \<Rightarrow> acc
      | Some v \<Rightarrow>
          (case acc_last acc of
             None \<Rightarrow> acc\<lparr>acc_last := Some v\<rparr>
           | Some l \<Rightarrow>
               if l = v \<and> v * 2 \<le> TARGET_TILE
               then \<lparr>acc_last = None,
                     acc_result = acc_result acc @ [Some (v * 2)],
                     acc_gained = acc_gained acc + v * 2\<rparr>
               else \<lparr>acc_last = Some v,
                     acc_result = acc_result acc @ [acc_last acc],
                     acc_gained = acc_gained acc\<rparr>))"

definition init_acc :: Acc where
  "init_acc = \<lparr>acc_last = None, acc_result = [], acc_gained = 0\<rparr>"

text \<open>\<^verbatim>\<open>arr[i] ?? null\<close>: a read past the end of \<open>arr\<close> gives the empty cell.\<close>

definition orNull :: "Tile list \<Rightarrow> nat \<Rightarrow> Tile" where
  "orNull arr i = (if i < length arr then arr ! i else None)"

definition moveRowLeft :: "Tile list \<Rightarrow> Tile list Moved" where
  "moveRowLeft row =
     (let red = foldl step init_acc row;
          arr = acc_result red @ [acc_last red];
          out = map (\<lambda>i. orNull arr i) [0..<length row]
      in \<lparr>result = out,
          isMoved = list_ex (\<lambda>i. row ! i \<noteq> out ! i) [0..<length row],
          gained = acc_gained red\<rparr>)"

definition moveLeft :: "Grid \<Rightarrow> Grid Moved" where
  "moveLeft m =
     (let rows = map moveRowLeft m;
          g = foldl (\<lambda>s x. s + gained x) 0 rows
      in \<lparr>result = map result rows,
          isMoved = list_ex isMoved rows,
          gained = g\<rparr>)"

definition moveMapIn2048Rule :: "Grid \<Rightarrow> Direction \<Rightarrow> error + Grid Moved" where
  "moveMapIn2048Rule m direction =
     (case rotateMap m (rotateMapDeg direction) of
        Inl e \<Rightarrow> Inl e
      | Inr rotated \<Rightarrow>
          (let mv = moveLeft rotated in
           case rotateMap (result mv) (revertMapDeg direction) of
             Inl e \<Rightarrow> Inl e
           | Inr back \<Rightarrow> Inr \<lparr>result = back, isMoved = isMoved mv, gained = gained mv\<rparr>))"

subsection \<open>Well-formed grids and the rotation as a function of positions\<close>

text \<open>
  \<open>uniform_rows\<close>: at least one row, and all rows of one length. \<open>wf_grid\<close>: a
  rectangular grid of \<open>R\<close> rows and \<open>C\<close> columns with neither zero, that is, uniform rows and
  at least one column. \<open>turn\<close> is what \<^verbatim>\<open>rotateMap\<close> computes when every read is in range; it is a
  device of the proofs, and \<open>rotateMap_turn\<close> below connects it to the code.
\<close>

definition uniform_rows :: "Grid \<Rightarrow> bool" where
  "uniform_rows g = (g \<noteq> [] \<and> list_all (\<lambda>row. length row = length (hd g)) g)"

definition wf_grid :: "Grid \<Rightarrow> bool" where
  "wf_grid g = (uniform_rows g \<and> hd g \<noteq> [])"

fun turn :: "Degree \<Rightarrow> Grid \<Rightarrow> Grid" where
  "turn Deg0 g = g"
| "turn Deg90 g =
     map (\<lambda>c. map (\<lambda>r. g ! r ! (length (hd g) - c - 1)) [0..<length g]) [0..<length (hd g)]"
| "turn Deg180 g =
     map (\<lambda>r. map (\<lambda>c. g ! (length g - r - 1) ! (length (hd g) - c - 1)) [0..<length (hd g)])
       [0..<length g]"
| "turn Deg270 g =
     map (\<lambda>c. map (\<lambda>r. g ! (length g - r - 1) ! c) [0..<length g]) [0..<length (hd g)]"

text \<open>\<open>dims g R C\<close>: \<open>g\<close> has \<open>R\<close> rows of \<open>C\<close> cells each, and neither is zero.\<close>

definition dims :: "Grid \<Rightarrow> nat \<Rightarrow> nat \<Rightarrow> bool" where
  "dims g R C = (length g = R \<and> 0 < R \<and> 0 < C \<and> (\<forall>r<R. length (g ! r) = C))"

subsection \<open>Tiles of a row, and the pairs a row scan merges\<close>

text \<open>
  \<open>tile_values\<close> lists the values of the non-empty cells, in order; \<open>grid_tiles\<close> is the
  multiset of non-empty tile values of a grid.
\<close>

fun tile_values :: "Tile list \<Rightarrow> int list" where
  "tile_values [] = []"
| "tile_values (None # cs) = tile_values cs"
| "tile_values (Some v # cs) = v # tile_values cs"

definition grid_tiles :: "Grid \<Rightarrow> int multiset" where
  "grid_tiles g = mset (tile_values (concat g))"

text \<open>
  The merges of one row scan, written after section 4.2 of the specification: the scan keeps
  a pending tile \<open>p\<close>; a cell equal to the pending tile whose double does not exceed the
  ceiling merges with it and clears the slot, any other non-empty cell becomes the pending
  tile. \<open>spec_merged p row\<close> lists the value \<open>v\<close> of each pair \<open>(v, v)\<close> that merges, so the tiles
  created are the doubles of its elements. \<open>spec_merged_rows\<close> does so for every row of a grid, and
  \<open>spec_merged_pairs\<close> for the rows a move in a direction scans.
\<close>

fun spec_merged :: "Tile \<Rightarrow> Tile list \<Rightarrow> int list" where
  "spec_merged p [] = []"
| "spec_merged p (None # cs) = spec_merged p cs"
| "spec_merged None (Some v # cs) = spec_merged (Some v) cs"
| "spec_merged (Some l) (Some v # cs) =
     (if l = v \<and> v * 2 \<le> TARGET_TILE then v # spec_merged None cs else spec_merged (Some v) cs)"

definition spec_merged_rows :: "Grid \<Rightarrow> int list" where
  "spec_merged_rows g = concat (map (spec_merged None) g)"

definition spec_merged_pairs :: "Grid \<Rightarrow> Direction \<Rightarrow> int list" where
  "spec_merged_pairs g d =
     (case rotateMap g (rotateMapDeg d) of Inl e \<Rightarrow> [] | Inr rotated \<Rightarrow> spec_merged_rows rotated)"

subsection \<open>Compacted rows and grids\<close>

text \<open>
  \<open>compacted row\<close>: every empty cell is followed by empty cells only. \<open>wall_side d R C r c\<close>
  lists the positions between \<open>(r, c)\<close> and the wall that a move in direction \<open>d\<close> pushes
  towards, in an \<open>R\<close> by \<open>C\<close> grid; \<open>no_gaps d g\<close>: no non-empty cell of \<open>g\<close> has an empty
  cell among them. \<open>quarter d\<close>: the rotation for \<open>d\<close> swaps rows and columns.
\<close>

definition compacted :: "Tile list \<Rightarrow> bool" where
  "compacted row =
     list_all (\<lambda>j. list_all (\<lambda>i. row ! i = None \<longrightarrow> row ! j = None) [0..<j]) [0..<length row]"

fun wall_side :: "Direction \<Rightarrow> nat \<Rightarrow> nat \<Rightarrow> nat \<Rightarrow> nat \<Rightarrow> (nat \<times> nat) list" where
  "wall_side Left R C r c = map (\<lambda>c'. (r, c')) [0..<c]"
| "wall_side Right R C r c = map (\<lambda>c'. (r, c')) [Suc c..<C]"
| "wall_side Up R C r c = map (\<lambda>r'. (r', c)) [0..<r]"
| "wall_side Down R C r c = map (\<lambda>r'. (r', c)) [Suc r..<R]"

definition no_gaps :: "Direction \<Rightarrow> Grid \<Rightarrow> bool" where
  "no_gaps d g =
     list_all (\<lambda>r. list_all (\<lambda>c. g ! r ! c \<noteq> None \<longrightarrow>
         list_all (\<lambda>(r', c'). g ! r' ! c' \<noteq> None) (wall_side d (length g) (length (hd g)) r c))
       [0..<length (hd g)]) [0..<length g]"

definition quarter :: "Direction \<Rightarrow> bool" where
  "quarter d = (d = Up \<or> d = Down)"

section \<open>Rotation\<close>

lemmas turn_unfold = turn.simps

declare turn.simps [simp del]

lemma collect_map_Inr:
  "(\<And>x. x \<in> set xs \<Longrightarrow> f x = Inr (h x)) \<Longrightarrow> collect (map f xs) = Inr (map h xs)"
  by (induction xs) simp_all

lemma arrayFrom_Inr:
  "(\<And>i. i < n \<Longrightarrow> f i = Inr (h i)) \<Longrightarrow> arrayFrom n f = Inr (map h [0..<n])"
  unfolding arrayFrom_def by (rule collect_map_Inr) simp

lemma uniform_rows_length:
  "uniform_rows g \<Longrightarrow> r < length g \<Longrightarrow> length (g ! r) = length (hd g)"
  by (simp add: uniform_rows_def list_all_length)

lemma cellAt_in_range:
  "uniform_rows g \<Longrightarrow> r < length g \<Longrightarrow> c < length (hd g) \<Longrightarrow> cellAt g r c = Inr (g ! r ! c)"
  by (simp add: cellAt_def uniform_rows_length)

lemma rotateMap_unfold:
  "g \<noteq> [] \<Longrightarrow> rotateMap g deg =
     (case deg of
        Deg0 \<Rightarrow> Inr (cloneMap g)
      | Deg90 \<Rightarrow> arrayFrom (length (hd g))
          (\<lambda>c. arrayFrom (length g) (\<lambda>r. cellAt g r (length (hd g) - c - 1)))
      | Deg180 \<Rightarrow> arrayFrom (length g)
          (\<lambda>r. arrayFrom (length (hd g)) (\<lambda>c. cellAt g (length g - r - 1) (length (hd g) - c - 1)))
      | Deg270 \<Rightarrow> arrayFrom (length (hd g))
          (\<lambda>c. arrayFrom (length g) (\<lambda>r. cellAt g (length g - r - 1) c)))"
  by (cases g; cases deg) (simp_all add: rotateMap_def Let_def)

lemma rotateMap_turn:
  assumes "uniform_rows g"
  shows "rotateMap g deg = Inr (turn deg g)"
proof -
  have ne: "g \<noteq> []" using assms by (simp add: uniform_rows_def)
  show ?thesis
  proof (cases deg)
    case Deg0
    then show ?thesis by (simp add: rotateMap_unfold[OF ne] cloneMap_def turn_unfold)
  next
    case Deg90
    have "arrayFrom (length (hd g)) (\<lambda>c. arrayFrom (length g) (\<lambda>r. cellAt g r (length (hd g) - c - 1)))
          = Inr (turn Deg90 g)"
      unfolding turn_unfold
      by (intro arrayFrom_Inr cellAt_in_range assms) simp_all
    then show ?thesis using Deg90 by (simp add: rotateMap_unfold[OF ne])
  next
    case Deg180
    have "arrayFrom (length g) (\<lambda>r. arrayFrom (length (hd g))
            (\<lambda>c. cellAt g (length g - r - 1) (length (hd g) - c - 1)))
          = Inr (turn Deg180 g)"
      unfolding turn_unfold
      by (intro arrayFrom_Inr cellAt_in_range assms) simp_all
    then show ?thesis using Deg180 by (simp add: rotateMap_unfold[OF ne])
  next
    case Deg270
    have "arrayFrom (length (hd g)) (\<lambda>c. arrayFrom (length g) (\<lambda>r. cellAt g (length g - r - 1) c))
          = Inr (turn Deg270 g)"
      unfolding turn_unfold
      by (intro arrayFrom_Inr cellAt_in_range assms) simp_all
    then show ?thesis using Deg270 by (simp add: rotateMap_unfold[OF ne])
  qed
qed

lemma wf_grid_dims: "wf_grid g \<longleftrightarrow> dims g (length g) (length (hd g))"
  by (auto simp: wf_grid_def uniform_rows_def dims_def list_all_length)

lemma dims_hd: "dims g R C \<Longrightarrow> length (hd g) = C"
  by (cases g) (auto simp: dims_def)

lemma dims_wf: "dims g R C \<Longrightarrow> wf_grid g"
  using dims_hd[of g R C] by (auto simp: wf_grid_dims dims_def)

lemma dims_uniform: "dims g R C \<Longrightarrow> uniform_rows g"
  using dims_wf by (simp add: wf_grid_def)

lemma turn_quarter_dims:
  "dims g R C \<Longrightarrow> deg = Deg90 \<or> deg = Deg270 \<Longrightarrow> dims (turn deg g) C R"
  using dims_hd[of g R C] by (auto simp: dims_def turn_unfold)

lemma turn_half_dims:
  "dims g R C \<Longrightarrow> deg = Deg0 \<or> deg = Deg180 \<Longrightarrow> dims (turn deg g) R C"
  using dims_hd[of g R C] by (auto simp: dims_def turn_unfold)

lemma grid_eqI:
  assumes "dims g R C" "dims h R C" "\<And>r c. r < R \<Longrightarrow> c < C \<Longrightarrow> h ! r ! c = g ! r ! c"
  shows "h = g"
proof (rule nth_equalityI)
  show "length h = length g" using assms by (simp add: dims_def)
next
  fix r assume "r < length h"
  then have r: "r < R" using assms by (simp add: dims_def)
  show "h ! r = g ! r"
    by (rule nth_equalityI) (use r assms in \<open>auto simp: dims_def\<close>)
qed

lemma turn90_nth:
  "dims g R C \<Longrightarrow> c < C \<Longrightarrow> r < R \<Longrightarrow> turn Deg90 g ! c ! r = g ! r ! (C - c - 1)"
  by (frule dims_hd) (simp add: dims_def turn_unfold)

lemma turn180_nth:
  "dims g R C \<Longrightarrow> r < R \<Longrightarrow> c < C \<Longrightarrow> turn Deg180 g ! r ! c = g ! (R - r - 1) ! (C - c - 1)"
  by (frule dims_hd) (simp add: dims_def turn_unfold)

lemma turn270_nth:
  "dims g R C \<Longrightarrow> c < C \<Longrightarrow> r < R \<Longrightarrow> turn Deg270 g ! c ! r = g ! (R - r - 1) ! c"
  by (frule dims_hd) (simp add: dims_def turn_unfold)

lemma turn_270_90: "dims g R C \<Longrightarrow> turn Deg270 (turn Deg90 g) = g"
proof (rule grid_eqI[of g R C])
  assume d: "dims g R C"
  then have d': "dims (turn Deg90 g) C R" by (simp add: turn_quarter_dims)
  then show "dims (turn Deg270 (turn Deg90 g)) R C" by (simp add: turn_quarter_dims)
  fix r c assume rc: "r < R" "c < C"
  then show "turn Deg270 (turn Deg90 g) ! r ! c = g ! r ! c"
    using d by (simp add: turn270_nth[OF d'] turn90_nth[OF d])
qed

lemma turn_90_270: "dims g R C \<Longrightarrow> turn Deg90 (turn Deg270 g) = g"
proof (rule grid_eqI[of g R C])
  assume d: "dims g R C"
  then have d': "dims (turn Deg270 g) C R" by (simp add: turn_quarter_dims)
  then show "dims (turn Deg90 (turn Deg270 g)) R C" by (simp add: turn_quarter_dims)
  fix r c assume rc: "r < R" "c < C"
  then show "turn Deg90 (turn Deg270 g) ! r ! c = g ! r ! c"
    using d by (simp add: turn90_nth[OF d'] turn270_nth[OF d])
qed

lemma turn_180_180: "dims g R C \<Longrightarrow> turn Deg180 (turn Deg180 g) = g"
proof (rule grid_eqI[of g R C])
  assume d: "dims g R C"
  then have d': "dims (turn Deg180 g) R C" by (simp add: turn_half_dims)
  then show "dims (turn Deg180 (turn Deg180 g)) R C" by (simp add: turn_half_dims)
  fix r c assume rc: "r < R" "c < C"
  then show "turn Deg180 (turn Deg180 g) ! r ! c = g ! r ! c"
    using d by (simp add: turn180_nth[OF d'] turn180_nth[OF d])
qed

lemma turn_revert_rotate:
  "dims g R C \<Longrightarrow> turn (revertMapDeg d) (turn (rotateMapDeg d) g) = g"
  by (cases d) (simp_all add: turn_270_90 turn_90_270 turn_180_180 turn_unfold(1))

lemma turn_rotate_revert:
  "dims g R C \<Longrightarrow> turn (rotateMapDeg d) (turn (revertMapDeg d) g) = g"
  by (cases d) (simp_all add: turn_270_90 turn_90_270 turn_180_180 turn_unfold(1))

section \<open>The row scan\<close>

lemma tile_values_append [simp]: "tile_values (xs @ ys) = tile_values xs @ tile_values ys"
  by (induction xs rule: tile_values.induct) simp_all

lemma tile_values_map_Some [simp]: "tile_values (map Some ws) = ws"
  by (induction ws) simp_all

lemma tile_values_replicate_None [simp]: "tile_values (replicate k None) = []"
  by (induction k) simp_all

lemma map_Some_tile_values: "None \<notin> set xs \<Longrightarrow> map Some (tile_values xs) = xs"
  by (induction xs rule: tile_values.induct) simp_all

lemma length_tile_values: "length (tile_values xs) \<le> length xs"
  by (induction xs rule: tile_values.induct) simp_all

lemma tile_values_set: "v \<in> set (tile_values xs) \<longleftrightarrow> Some v \<in> set xs"
  by (induction xs rule: tile_values.induct) auto

lemma step_None: "step acc None = acc"
  by (simp add: step_def)

lemma step_first: "acc_last acc = None \<Longrightarrow> step acc (Some v) = acc\<lparr>acc_last := Some v\<rparr>"
  by (simp add: step_def)

lemma step_merge:
  "acc_last acc = Some v \<Longrightarrow> v * 2 \<le> TARGET_TILE \<Longrightarrow>
   step acc (Some v) = \<lparr>acc_last = None, acc_result = acc_result acc @ [Some (v * 2)],
                         acc_gained = acc_gained acc + v * 2\<rparr>"
  by (simp add: step_def)

lemma step_push:
  "acc_last acc = Some l \<Longrightarrow> \<not> (l = v \<and> v * 2 \<le> TARGET_TILE) \<Longrightarrow>
   step acc (Some v) = \<lparr>acc_last = Some v, acc_result = acc_result acc @ [Some l],
                         acc_gained = acc_gained acc\<rparr>"
  by (simp add: step_def)

text \<open>The reduction against the ghost list of merged pairs.\<close>

lemma foldl_step_invariant:
  "acc_gained (foldl step acc row) = acc_gained acc + (\<Sum>v\<leftarrow>spec_merged (acc_last acc) row. 2 * v)
   \<and> mset (tile_values (acc_result (foldl step acc row) @ [acc_last (foldl step acc row)]))
       + mset (spec_merged (acc_last acc) row) + mset (spec_merged (acc_last acc) row)
     = mset (tile_values (acc_result acc @ [acc_last acc])) + mset (tile_values row)
       + mset (map (\<lambda>v. 2 * v) (spec_merged (acc_last acc) row))
   \<and> (None \<notin> set (acc_result acc) \<longrightarrow> None \<notin> set (acc_result (foldl step acc row)))"
proof (induction row arbitrary: acc)
  case Nil
  then show ?case by simp
next
  case (Cons cell row)
  show ?case
  proof (cases cell)
    case None
    then show ?thesis using Cons.IH[of acc] by (simp add: step_None)
  next
    case (Some v)
    note cell = this
    show ?thesis
    proof (cases "acc_last acc")
      case None
      then show ?thesis using cell Cons.IH[of "acc\<lparr>acc_last := Some v\<rparr>"]
        by (simp add: step_first)
    next
      case (Some l)
      note last = this
      show ?thesis
      proof (cases "l = v \<and> v * 2 \<le> TARGET_TILE")
        case True
        then have st: "step acc (Some v) = \<lparr>acc_last = None,
            acc_result = acc_result acc @ [Some (v * 2)], acc_gained = acc_gained acc + v * 2\<rparr>"
          using last by (simp add: step_merge)
        have mg: "spec_merged (acc_last acc) (Some v # row) = v # spec_merged None row"
          using True last by simp
        show ?thesis
          using Cons.IH[of "step acc (Some v)"] last True
          unfolding cell mg by (simp add: st mult.commute)
      next
        case False
        then have st: "step acc (Some v) = \<lparr>acc_last = Some v,
            acc_result = acc_result acc @ [Some l], acc_gained = acc_gained acc\<rparr>"
          using last by (simp add: step_push)
        have mg: "spec_merged (acc_last acc) (Some v # row) = spec_merged (Some v) row"
          using False last by auto
        show ?thesis
          using Cons.IH[of "step acc (Some v)"] last
          unfolding cell mg by (simp add: st)
      qed
    qed
  qed
qed

lemma merged_bound: "v \<in> set (spec_merged p row) \<Longrightarrow> v * 2 \<le> TARGET_TILE \<and> Some v \<in> set row"
  by (induction p row rule: spec_merged.induct) (auto split: if_splits)

lemma pad_orNull:
  "length ws \<le> n \<Longrightarrow>
   map (orNull (map Some ws @ replicate k None)) [0..<n] = map Some ws @ replicate (n - length ws) None"
  by (rule nth_equalityI) (auto simp: orNull_def nth_append)


lemma arr_shape:
  assumes "None \<notin> set res"
  shows "\<exists>k. res @ [l] = map Some (tile_values (res @ [l])) @ replicate k None"
proof (cases l)
  case None
  have "res @ [l] = map Some (tile_values (res @ [l])) @ replicate 1 None"
    using assms None by (simp add: map_Some_tile_values)
  then show ?thesis by blast
next
  case (Some v)
  have "res @ [l] = map Some (tile_values (res @ [l])) @ replicate 0 None"
    using assms Some by (simp add: map_Some_tile_values)
  then show ?thesis by blast
qed

lemma moveRowLeft_out:
  "result (moveRowLeft row) =
     map (orNull (acc_result (foldl step init_acc row) @ [acc_last (foldl step init_acc row)]))
       [0..<length row]"
  by (simp add: moveRowLeft_def Let_def)

lemma moveRowLeft_length [simp]: "length (result (moveRowLeft row)) = length row"
  by (simp add: moveRowLeft_out)

lemma moveRowLeft_gained:
  "gained (moveRowLeft row) = (\<Sum>v\<leftarrow>spec_merged None row. 2 * v)"
  using foldl_step_invariant[of init_acc row]
  by (simp add: moveRowLeft_def Let_def init_acc_def)

lemma moveRowLeft_shape:
  "result (moveRowLeft row) =
     map Some (tile_values (result (moveRowLeft row)))
     @ replicate (length row - length (tile_values (result (moveRowLeft row)))) None
   \<and> mset (tile_values (result (moveRowLeft row))) + mset (spec_merged None row) + mset (spec_merged None row)
     = mset (tile_values row) + mset (map (\<lambda>v. 2 * v) (spec_merged None row))"
proof -
  define red where "red = foldl step init_acc row"
  define arr where "arr = acc_result red @ [acc_last red]"
  define W where "W = tile_values arr"
  define P where "P = spec_merged None row"
  have inv: "mset W + mset P + mset P = mset (tile_values row) + mset (map (\<lambda>v. 2 * v) P)"
    and nonull: "None \<notin> set (acc_result red)"
    using foldl_step_invariant[of init_acc row]
    by (simp_all add: red_def arr_def W_def P_def init_acc_def)
  from arr_shape[OF nonull, of "acc_last red"]
  obtain k where arr: "arr = map Some W @ replicate k None"
    unfolding arr_def W_def by blast
  have "size (mset W + mset P + mset P) = size (mset (tile_values row) + mset (map (\<lambda>v. 2 * v) P))"
    using inv by simp
  then have "length W \<le> length (tile_values row)" by simp
  then have len: "length W \<le> length row"
    using length_tile_values[of row] by simp
  have out: "result (moveRowLeft row) = map Some W @ replicate (length row - length W) None"
    unfolding moveRowLeft_out red_def[symmetric] arr_def[symmetric] arr
    by (rule pad_orNull[OF len])
  then have tv: "tile_values (result (moveRowLeft row)) = W" by simp
  show ?thesis using out inv unfolding tv P_def by simp
qed

lemma moveRowLeft_isMoved: "isMoved (moveRowLeft row) \<longleftrightarrow> result (moveRowLeft row) \<noteq> row"
proof -
  define out where "out = result (moveRowLeft row)"
  have len: "length out = length row" by (simp add: out_def)
  have "isMoved (moveRowLeft row) = list_ex (\<lambda>i. row ! i \<noteq> out ! i) [0..<length row]"
    by (simp add: moveRowLeft_def Let_def out_def)
  also have "\<dots> \<longleftrightarrow> (\<exists>i<length row. row ! i \<noteq> out ! i)"
    by (auto simp: list_ex_iff)
  also have "\<dots> \<longleftrightarrow> out \<noteq> row"
    using len by (auto simp: list_eq_iff_nth_eq)
  finally show ?thesis by (simp add: out_def)
qed


lemma foldl_plus: "foldl (\<lambda>s x. s + f x) a xs = (a::int) + sum_list (map f xs)"
  by (induction xs arbitrary: a) simp_all

lemma moveLeft_result: "result (moveLeft g) = map (\<lambda>row. result (moveRowLeft row)) g"
  by (simp add: moveLeft_def Let_def)

lemma moveLeft_gained: "gained (moveLeft g) = (\<Sum>v\<leftarrow>spec_merged_rows g. 2 * v)"
proof -
  have "gained (moveLeft g) = (\<Sum>row\<leftarrow>g. gained (moveRowLeft row))"
    by (simp add: moveLeft_def Let_def foldl_plus comp_def)
  also have "\<dots> = (\<Sum>v\<leftarrow>spec_merged_rows g. 2 * v)"
    by (induction g) (simp_all add: spec_merged_rows_def moveRowLeft_gained)
  finally show ?thesis .
qed

lemma moveLeft_isMoved: "isMoved (moveLeft g) \<longleftrightarrow> result (moveLeft g) \<noteq> g"
proof -
  have "isMoved (moveLeft g) \<longleftrightarrow> (\<exists>row\<in>set g. result (moveRowLeft row) \<noteq> row)"
    by (simp add: moveLeft_def Let_def list_ex_iff moveRowLeft_isMoved)
  also have "\<dots> \<longleftrightarrow> map (\<lambda>row. result (moveRowLeft row)) g \<noteq> g"
    using map_eq_conv[of "\<lambda>row. result (moveRowLeft row)" g "\<lambda>row. row"] by auto
  finally show ?thesis by (simp add: moveLeft_result)
qed

lemma moveLeft_dims: "dims g R C \<Longrightarrow> dims (result (moveLeft g)) R C"
  by (simp add: dims_def moveLeft_result)

lemma grid_tiles_Cons: "grid_tiles (row # g) = mset (tile_values row) + grid_tiles g"
  by (simp add: grid_tiles_def)

lemma moveLeft_tiles:
  "grid_tiles (result (moveLeft g)) + mset (spec_merged_rows g) + mset (spec_merged_rows g)
   = grid_tiles g + mset (map (\<lambda>v. 2 * v) (spec_merged_rows g))"
proof (induction g)
  case Nil
  then show ?case by (simp add: moveLeft_result grid_tiles_def spec_merged_rows_def)
next
  case (Cons row g)
  have r: "mset (tile_values (result (moveRowLeft row))) + mset (spec_merged None row)
             + mset (spec_merged None row)
           = mset (tile_values row) + mset (map (\<lambda>v. 2 * v) (spec_merged None row))"
    using moveRowLeft_shape[of row] by simp
  have m: "spec_merged_rows (row # g) = spec_merged None row @ spec_merged_rows g"
    by (simp add: spec_merged_rows_def)
  have l: "result (moveLeft (row # g)) = result (moveRowLeft row) # result (moveLeft g)"
    by (simp add: moveLeft_result)
  have "grid_tiles (result (moveLeft (row # g))) + mset (spec_merged_rows (row # g))
          + mset (spec_merged_rows (row # g))
        = (mset (tile_values (result (moveRowLeft row))) + mset (spec_merged None row)
             + mset (spec_merged None row))
          + (grid_tiles (result (moveLeft g)) + mset (spec_merged_rows g) + mset (spec_merged_rows g))"
    unfolding m l grid_tiles_Cons by (simp add: ac_simps)
  also have "\<dots> = (mset (tile_values row) + mset (map (\<lambda>v. 2 * v) (spec_merged None row)))
          + (grid_tiles g + mset (map (\<lambda>v. 2 * v) (spec_merged_rows g)))"
    unfolding r Cons.IH ..
  also have "\<dots> = grid_tiles (row # g) + mset (map (\<lambda>v. 2 * v) (spec_merged_rows (row # g)))"
    unfolding m grid_tiles_Cons by (simp add: ac_simps)
  finally show ?case .
qed

lemma spec_merged_rows_bound:
  "v \<in> set (spec_merged_rows g) \<Longrightarrow> v * 2 \<le> TARGET_TILE \<and> (\<exists>row\<in>set g. Some v \<in> set row)"
  using merged_bound by (fastforce simp: spec_merged_rows_def)

subsection \<open>Rotation permutes the cells\<close>

lemma mset_map_upt: "mset (map h [0..<m]) = (\<Sum>j<m. {#h j#})"
  by (induction m) simp_all

lemma mset_concat_table:
  "mset (concat (map (\<lambda>i. map (f i) [0..<m]) [0..<n])) = (\<Sum>i<n. \<Sum>j<m. {#f i j#})"
  by (induction n) (simp_all add: mset_map_upt del: mset_map)

lemma grid_table:
  assumes "dims g R C"
  shows "g = map (\<lambda>r. map (\<lambda>c. g ! r ! c) [0..<C]) [0..<R]"
  by (rule grid_eqI[OF assms, symmetric]) (use assms in \<open>auto simp: dims_def\<close>)

lemma dims_cells: "dims g R C \<Longrightarrow> mset (concat g) = (\<Sum>r<R. \<Sum>c<C. {#g ! r ! c#})"
  using grid_table[of g R C] mset_concat_table[of "\<lambda>r c. g ! r ! c" C R] by simp

lemma turn_cells:
  assumes "dims g R C"
  shows "mset (concat (turn deg g)) = mset (concat g)"
proof -
  have hd: "length (hd g) = C" and len: "length g = R"
    using assms dims_hd[OF assms] by (simp_all add: dims_def)
  have flipC: "\<And>h. (\<Sum>c<C. h (C - c - 1)) = (\<Sum>c<C. (h c :: Tile multiset))"
    using sum.nat_diff_reindex[of _ C] by simp
  have flipR: "\<And>h. (\<Sum>r<R. h (R - r - 1)) = (\<Sum>r<R. (h r :: Tile multiset))"
    using sum.nat_diff_reindex[of _ R] by simp
  show ?thesis
  proof (cases deg)
    case Deg0
    then show ?thesis by (simp add: turn_unfold)
  next
    case Deg90
    have "mset (concat (turn Deg90 g)) = (\<Sum>c<C. \<Sum>r<R. {#g ! r ! (C - c - 1)#})"
      by (simp add: turn_unfold hd len mset_concat_table)
    also have "\<dots> = (\<Sum>c<C. \<Sum>r<R. {#g ! r ! c#})"
      by (rule flipC[of "\<lambda>c. \<Sum>r<R. {#g ! r ! c#}"])
    also have "\<dots> = (\<Sum>r<R. \<Sum>c<C. {#g ! r ! c#})"
      by (rule sum.swap)
    finally show ?thesis using Deg90 by (simp add: dims_cells[OF assms])
  next
    case Deg180
    have "mset (concat (turn Deg180 g)) = (\<Sum>r<R. \<Sum>c<C. {#g ! (R - r - 1) ! (C - c - 1)#})"
      by (simp add: turn_unfold hd len mset_concat_table)
    also have "\<dots> = (\<Sum>r<R. \<Sum>c<C. {#g ! r ! (C - c - 1)#})"
      by (rule flipR[of "\<lambda>r. \<Sum>c<C. {#g ! r ! (C - c - 1)#}"])
    also have "\<dots> = (\<Sum>r<R. \<Sum>c<C. {#g ! r ! c#})"
      by (rule sum.cong[OF refl]) (rule flipC[of "\<lambda>c. {#g ! _ ! c#}"])
    finally show ?thesis using Deg180 by (simp add: dims_cells[OF assms])
  next
    case Deg270
    have "mset (concat (turn Deg270 g)) = (\<Sum>c<C. \<Sum>r<R. {#g ! (R - r - 1) ! c#})"
      by (simp add: turn_unfold hd len mset_concat_table)
    also have "\<dots> = (\<Sum>c<C. \<Sum>r<R. {#g ! r ! c#})"
      by (rule sum.cong[OF refl]) (rule flipR[of "\<lambda>r. {#g ! r ! _#}"])
    also have "\<dots> = (\<Sum>r<R. \<Sum>c<C. {#g ! r ! c#})"
      by (rule sum.swap)
    finally show ?thesis using Deg270 by (simp add: dims_cells[OF assms])
  qed
qed

lemma tile_values_filter:
  "mset (tile_values xs) = image_mset the (filter_mset (\<lambda>x. x \<noteq> None) (mset xs))"
  by (induction xs rule: tile_values.induct) simp_all

lemma turn_tiles: "dims g R C \<Longrightarrow> grid_tiles (turn deg g) = grid_tiles g"
  by (simp add: grid_tiles_def tile_values_filter turn_cells)

section \<open>The whole move\<close>

lemma rotate_dims:
  "dims g R C \<Longrightarrow>
   dims (turn (rotateMapDeg d) g) (if quarter d then C else R) (if quarter d then R else C)"
  by (cases d) (simp_all add: quarter_def turn_quarter_dims turn_half_dims)

lemma revert_dims:
  "dims x (if quarter d then C else R) (if quarter d then R else C) \<Longrightarrow>
   dims (turn (revertMapDeg d) x) R C"
  by (cases d) (simp_all add: quarter_def turn_quarter_dims turn_half_dims)

lemma move_dims:
  assumes "dims g R C"
  shows "moveMapIn2048Rule g d =
           Inr \<lparr>result = turn (revertMapDeg d) (result (moveLeft (turn (rotateMapDeg d) g))),
                isMoved = isMoved (moveLeft (turn (rotateMapDeg d) g)),
                gained = gained (moveLeft (turn (rotateMapDeg d) g))\<rparr>"
proof -
  have 1: "rotateMap g (rotateMapDeg d) = Inr (turn (rotateMapDeg d) g)"
    by (rule rotateMap_turn[OF dims_uniform[OF assms]])
  have "uniform_rows (result (moveLeft (turn (rotateMapDeg d) g)))"
    by (rule dims_uniform[OF moveLeft_dims[OF rotate_dims[OF assms]]])
  then have 2: "rotateMap (result (moveLeft (turn (rotateMapDeg d) g))) (revertMapDeg d)
                = Inr (turn (revertMapDeg d) (result (moveLeft (turn (rotateMapDeg d) g))))"
    by (rule rotateMap_turn)
  show ?thesis by (simp add: moveMapIn2048Rule_def 1 2 Let_def)
qed

lemma move_result_dims:
  "dims g R C \<Longrightarrow> dims (turn (revertMapDeg d) (result (moveLeft (turn (rotateMapDeg d) g)))) R C"
  by (rule revert_dims[OF moveLeft_dims[OF rotate_dims]])

lemma spec_merged_pairs_dims:
  "dims g R C \<Longrightarrow> spec_merged_pairs g d = spec_merged_rows (turn (rotateMapDeg d) g)"
  by (simp add: spec_merged_pairs_def rotateMap_turn[OF dims_uniform])

lemma move_tiles:
  assumes "dims g R C"
  shows "grid_tiles (turn (revertMapDeg d) (result (moveLeft (turn (rotateMapDeg d) g))))
           + mset (spec_merged_pairs g d) + mset (spec_merged_pairs g d)
         = grid_tiles g + mset (map (\<lambda>v. 2 * v) (spec_merged_pairs g d))"
  using moveLeft_tiles[of "turn (rotateMapDeg d) g"]
  by (simp add: spec_merged_pairs_dims[OF assms]
      turn_tiles[OF moveLeft_dims[OF rotate_dims[OF assms]]] turn_tiles[OF assms])

lemma spec_merged_pairs_bound:
  assumes "dims g R C" "v \<in> set (spec_merged_pairs g d)"
  shows "v * 2 \<le> TARGET_TILE \<and> v \<in># grid_tiles g"
proof -
  from assms have v: "v \<in> set (spec_merged_rows (turn (rotateMapDeg d) g))"
    by (simp add: spec_merged_pairs_dims)
  from spec_merged_rows_bound[OF v] obtain row where
    "v * 2 \<le> TARGET_TILE" "row \<in> set (turn (rotateMapDeg d) g)" "Some v \<in> set row"
    by blast
  moreover then have "v \<in># grid_tiles (turn (rotateMapDeg d) g)"
    by (auto simp: grid_tiles_def tile_values_set)
  ultimately show ?thesis by (simp add: turn_tiles[OF assms(1)])
qed

lemma move_moved:
  assumes "dims g R C"
  shows "isMoved (moveLeft (turn (rotateMapDeg d) g)) \<longleftrightarrow>
         turn (revertMapDeg d) (result (moveLeft (turn (rotateMapDeg d) g))) \<noteq> g"
proof -
  let ?x = "turn (rotateMapDeg d) g"
  let ?y = "result (moveLeft ?x)"
  have dx: "dims ?x (if quarter d then C else R) (if quarter d then R else C)"
    by (rule rotate_dims[OF assms])
  have dy: "dims ?y (if quarter d then C else R) (if quarter d then R else C)"
    by (rule moveLeft_dims[OF dx])
  have back_x: "turn (revertMapDeg d) ?x = g" by (rule turn_revert_rotate[OF assms])
  have "turn (revertMapDeg d) ?y = g \<longleftrightarrow> ?y = ?x"
  proof
    assume "turn (revertMapDeg d) ?y = g"
    then have "turn (rotateMapDeg d) (turn (revertMapDeg d) ?y) = ?x" by simp
    then show "?y = ?x" by (simp add: turn_rotate_revert[OF dy])
  next
    assume "?y = ?x"
    then show "turn (revertMapDeg d) ?y = g" using back_x by simp
  qed
  then show ?thesis by (simp add: moveLeft_isMoved)
qed

lemma dims_neq_iff:
  assumes "dims g R C" "dims h R C"
  shows "h \<noteq> g \<longleftrightarrow> (\<exists>r<R. \<exists>c<C. h ! r ! c \<noteq> g ! r ! c)"
  using grid_eqI[OF assms] by blast


lemma compacted_iff:
  "compacted row \<longleftrightarrow> (\<forall>j<length row. \<forall>i<j. row ! i = None \<longrightarrow> row ! j = None)"
  by (fastforce simp: compacted_def list_all_iff)

lemma moveRowLeft_compacted: "compacted (result (moveRowLeft row))"
proof -
  define out where "out = result (moveRowLeft row)"
  define W where "W = tile_values out"
  have out: "out = map Some W @ replicate (length row - length W) None"
    using moveRowLeft_shape[of row] by (simp add: out_def W_def)
  have "out ! j = None" if "j < length out" "i < j" "out ! i = None" for i j
  proof -
    have "\<not> i < length W"
    proof
      assume "i < length W"
      then have "out ! i = Some (W ! i)" by (subst out) (simp add: nth_append)
      then show False using that by simp
    qed
    then have "\<not> j < length W" using that by simp
    moreover have "j - length W < length row - length W"
      using that calculation by (subst (asm) out) simp
    ultimately show ?thesis by (subst out) (simp add: nth_append)
  qed
  then show ?thesis unfolding compacted_iff out_def by blast
qed

lemma moveLeft_rows_compacted:
  "k < length x \<Longrightarrow> i < j \<Longrightarrow> j < length (x ! k) \<Longrightarrow>
   result (moveLeft x) ! k ! j \<noteq> None \<Longrightarrow> result (moveLeft x) ! k ! i \<noteq> None"
  using moveRowLeft_compacted[of "x ! k"]
  by (auto simp: moveLeft_result compacted_iff)

lemma no_gaps_iff:
  "no_gaps d g \<longleftrightarrow>
   (\<forall>r<length g. \<forall>c<length (hd g). g ! r ! c \<noteq> None \<longrightarrow>
      (\<forall>(r', c')\<in>set (wall_side d (length g) (length (hd g)) r c). g ! r' ! c' \<noteq> None))"
  by (simp add: no_gaps_def list_all_iff Ball_def)

lemma move_no_gaps:
  assumes "dims g R C"
  shows "no_gaps d (turn (revertMapDeg d) (result (moveLeft (turn (rotateMapDeg d) g))))"
proof -
  let ?x = "turn (rotateMapDeg d) g"
  let ?y = "result (moveLeft ?x)"
  let ?h = "turn (revertMapDeg d) ?y"
  have dx: "dims ?x (if quarter d then C else R) (if quarter d then R else C)"
    by (rule rotate_dims[OF assms])
  have dy: "dims ?y (if quarter d then C else R) (if quarter d then R else C)"
    by (rule moveLeft_dims[OF dx])
  have dh: "dims ?h R C" by (rule move_result_dims[OF assms])
  have lh: "length ?h = R" "length (hd ?h) = C"
    using dh dims_hd[OF dh] by (simp_all add: dims_def)
  have row: "?y ! k ! j \<noteq> None \<Longrightarrow> ?y ! k ! i \<noteq> None"
    if "k < (if quarter d then C else R)" "i < j" "j < (if quarter d then R else C)" for k i j
    using moveLeft_rows_compacted[of k ?x i j] that dx by (simp add: dims_def)
  have key: "?h ! r' ! c' \<noteq> None"
    if rc: "r < R" "c < C" and ne: "?h ! r ! c \<noteq> None"
      and side: "(r', c') \<in> set (wall_side d R C r c)" for r c r' c'
  proof (cases d)
    case Left
    then have pos: "r' = r" "c' < c" using side by auto
    have "?h = ?y" using Left by (simp add: turn_unfold)
    then show ?thesis
      using row[of r c' c] rc ne pos Left by (simp add: quarter_def)
  next
    case Right
    then have pos: "r' = r" "c < c'" "c' < C" using side by auto
    have dy': "dims ?y R C" using dy Right by (simp add: quarter_def)
    have h: "?h ! i ! j = ?y ! (R - i - 1) ! (C - j - 1)" if "i < R" "j < C" for i j
      using turn180_nth[OF dy' that] Right by simp
    have "?y ! (R - r - 1) ! (C - c - 1) \<noteq> None" using ne h[OF rc] by simp
    then have "?y ! (R - r - 1) ! (C - c' - 1) \<noteq> None"
      using row[of "R - r - 1" "C - c' - 1" "C - c - 1"] rc pos Right
      by (simp add: quarter_def)
    then show ?thesis using h[OF rc(1) pos(3)] pos(1) by simp
  next
    case Up
    then have pos: "c' = c" "r' < r" using side by auto
    have dy': "dims ?y C R" using dy Up by (simp add: quarter_def)
    have h: "?h ! i ! j = ?y ! (C - j - 1) ! i" if "i < R" "j < C" for i j
      using turn270_nth[OF dy' that] Up by simp
    have "?y ! (C - c - 1) ! r \<noteq> None" using ne h[OF rc] by simp
    then have "?y ! (C - c - 1) ! r' \<noteq> None"
      using row[of "C - c - 1" r' r] rc pos Up by (simp add: quarter_def)
    then show ?thesis using h[of r' c] rc pos by simp
  next
    case Down
    then have pos: "c' = c" "r < r'" "r' < R" using side by auto
    have dy': "dims ?y C R" using dy Down by (simp add: quarter_def)
    have h: "?h ! i ! j = ?y ! j ! (R - i - 1)" if "i < R" "j < C" for i j
      using turn90_nth[OF dy' that] Down by simp
    have "?y ! c ! (R - r - 1) \<noteq> None" using ne h[OF rc] by simp
    then have "?y ! c ! (R - r' - 1) \<noteq> None"
      using row[of c "R - r' - 1" "R - r - 1"] rc pos Down by (simp add: quarter_def)
    then show ?thesis using h[OF pos(3) rc(2)] pos(1) by simp
  qed
  show ?thesis unfolding no_gaps_iff lh using key by blast
qed

lemma even_sum_doubles: "even (\<Sum>v\<leftarrow>xs. 2 * (v::int))"
  by (induction xs) simp_all

lemma sum_doubles_nonneg: "(\<And>v. v \<in> set xs \<Longrightarrow> 0 \<le> v) \<Longrightarrow> 0 \<le> (\<Sum>v\<leftarrow>xs. 2 * (v::int))"
  by (induction xs) simp_all

lemma sum_doubles_zero:
  "(\<And>v. v \<in> set xs \<Longrightarrow> 0 < v) \<Longrightarrow> (\<Sum>v\<leftarrow>xs. 2 * (v::int)) = 0 \<Longrightarrow> xs = []"
proof (induction xs)
  case Nil
  then show ?case by simp
next
  case (Cons x xs)
  have "0 \<le> (\<Sum>v\<leftarrow>xs. 2 * v)"
    by (rule sum_doubles_nonneg) (use Cons.prems(1) in force)
  moreover have "0 < x" using Cons.prems(1) by simp
  ultimately show ?case using Cons.prems(2) by simp
qed

lemma grid_tiles_set: "v \<in># grid_tiles g \<longleftrightarrow> v \<in> set (tile_values (concat g))"
  by (simp add: grid_tiles_def)

text \<open>The definitions a concrete run unfolds.\<close>

lemmas run_defs = moveMapIn2048Rule_def rotateMap_def arrayFrom_def cellAt_def cloneMap_def
  moveLeft_def moveRowLeft_def step_def init_acc_def orNull_def TARGET_TILE_def Let_def

section \<open>The claims\<close>

text \<open>
  In the theorems below a rectangular grid is \<open>wf_grid\<close>: rows of one length, at least one
  row and at least one column. A run that returns is \<open>Inr\<close>; \<open>Inl\<close> is a \<^verbatim>\<open>TypeError\<close> or
  a read out of range.
\<close>

subsection \<open>C1: the rotations of a direction undo each other\<close>

text \<open>
  C1. For every rectangular grid \<open>g\<close> and every direction \<open>d\<close>, rotating \<open>g\<close> by the forward
  degree of \<open>d\<close> succeeds with some grid \<open>h\<close>, and rotating \<open>h\<close> by the reverse degree of \<open>d\<close>
  gives back \<open>g\<close> itself: the same dimensions and the same cells.
\<close>

theorem rotate_round_trip:
  assumes "wf_grid g"
  shows "\<exists>h. rotateMap g (rotateMapDeg d) = Inr h \<and> rotateMap h (revertMapDeg d) = Inr g"
proof -
  from assms have d: "dims g (length g) (length (hd g))" by (simp add: wf_grid_dims)
  have 1: "rotateMap g (rotateMapDeg d) = Inr (turn (rotateMapDeg d) g)"
    by (rule rotateMap_turn[OF dims_uniform[OF d]])
  have "rotateMap (turn (rotateMapDeg d) g) (revertMapDeg d)
        = Inr (turn (revertMapDeg d) (turn (rotateMapDeg d) g))"
    by (rule rotateMap_turn[OF dims_uniform[OF rotate_dims[OF d]]])
  then have 2: "rotateMap (turn (rotateMapDeg d) g) (revertMapDeg d) = Inr g"
    by (simp add: turn_revert_rotate[OF d])
  from 1 2 show ?thesis by blast
qed

text \<open>The round trip on a 2 by 3 grid, direction up.\<close>

theorem rotate_round_trip_witness:
  "wf_grid [[Some 2, None, Some 4], [None, Some 8, Some 16]]
   \<and> (\<exists>h. rotateMap [[Some 2, None, Some 4], [None, Some 8, Some 16]] (rotateMapDeg Up) = Inr h
          \<and> rotateMap h (revertMapDeg Up) = Inr [[Some 2, None, Some 4], [None, Some 8, Some 16]])"
proof -
  have h: "wf_grid [[Some 2, None, Some 4], [None, Some 8, Some 16]]"
    by (simp add: wf_grid_def uniform_rows_def)
  from h rotate_round_trip[OF h, of Up] show ?thesis by (rule conjI)
qed

subsection \<open>C2: no tile above the ceiling\<close>

text \<open>
  C2. The ceiling of the code is the constant \<open>TARGET_TILE\<close>. For every grid whose tiles are
  all at most \<open>TARGET_TILE\<close> and every direction, the move returns and no tile of the
  returned grid exceeds \<open>TARGET_TILE\<close>. Tiles whose double would exceed the ceiling are left
  unmerged: no pair of such tiles is merged, and every such tile of the input appears in the
  output (the output holds at least as many tiles of that value as the input).
\<close>

theorem move_keeps_ceiling:
  assumes "wf_grid g" and "list_all (\<lambda>v. v \<le> TARGET_TILE) (tile_values (concat g))"
  shows "\<exists>res. moveMapIn2048Rule g d = Inr res
           \<and> list_all (\<lambda>v. v \<le> TARGET_TILE) (tile_values (concat (result res)))
           \<and> (\<forall>v. TARGET_TILE < 2 * v \<longrightarrow>
                  v \<notin> set (spec_merged_pairs g d)
                  \<and> count (grid_tiles g) v \<le> count (grid_tiles (result res)) v)"
proof -
  from assms have d: "dims g (length g) (length (hd g))" by (simp add: wf_grid_dims)
  define h where "h = turn (revertMapDeg d) (result (moveLeft (turn (rotateMapDeg d) g)))"
  define P where "P = spec_merged_pairs g d"
  have eq: "grid_tiles h + mset P + mset P = grid_tiles g + mset (map (\<lambda>v. 2 * v) P)"
    unfolding h_def P_def by (rule move_tiles[OF d])
  have small: "v * 2 \<le> TARGET_TILE" if "v \<in> set P" for v
    using spec_merged_pairs_bound[OF d] that by (simp add: P_def)
  have "v \<le> TARGET_TILE" if "v \<in> set (tile_values (concat h))" for v
  proof -
    have "v \<in># grid_tiles h + mset P + mset P" using that by (simp add: grid_tiles_set)
    then have "v \<in># grid_tiles g + mset (map (\<lambda>v. 2 * v) P)" by (simp only: eq)
    then consider "v \<in> set (tile_values (concat g))" | p where "p \<in> set P" "v = 2 * p"
      by (auto simp: grid_tiles_set)
    then show ?thesis
    proof cases
      case 1
      then show ?thesis using assms(2) by (simp add: list_all_iff)
    next
      case 2
      then show ?thesis using small[of p] by (simp add: mult.commute)
    qed
  qed
  then have 1: "list_all (\<lambda>v. v \<le> TARGET_TILE) (tile_values (concat h))"
    by (simp add: list_all_iff)
  have 2: "v \<notin> set (spec_merged_pairs g d) \<and> count (grid_tiles g) v \<le> count (grid_tiles h) v"
    if "TARGET_TILE < 2 * v" for v
  proof -
    have n: "v \<notin> set P" using small[of v] that by (auto simp: mult.commute)
    then have z: "count (mset P) v = 0" by (simp add: count_eq_zero_iff)
    have "count (grid_tiles h) v + count (mset P) v + count (mset P) v
          = count (grid_tiles g) v + count (mset (map (\<lambda>v. 2 * v) P)) v"
      using arg_cong[OF eq, of "\<lambda>M. count M v"] by simp
    with z have "count (grid_tiles g) v \<le> count (grid_tiles h) v" by linarith
    with n show ?thesis by (simp add: P_def)
  qed
  show ?thesis using move_dims[OF d, of d] 1 2 by (simp add: h_def)
qed

text \<open>A row of two 128s stays as it is, next to a row whose two 64s merge.\<close>

theorem move_keeps_ceiling_witness:
  "wf_grid [[Some 128, Some 128], [Some 64, Some 64]]
   \<and> list_all (\<lambda>v. v \<le> TARGET_TILE) (tile_values (concat [[Some 128, Some 128], [Some 64, Some 64]]))
   \<and> moveMapIn2048Rule [[Some 128, Some 128], [Some 64, Some 64]] Left
       = Inr \<lparr>result = [[Some 128, Some 128], [Some 128, None]], isMoved = True, gained = 128\<rparr>
   \<and> (\<exists>res. moveMapIn2048Rule [[Some 128, Some 128], [Some 64, Some 64]] Left = Inr res
          \<and> list_all (\<lambda>v. v \<le> TARGET_TILE) (tile_values (concat (result res)))
          \<and> count (grid_tiles [[Some 128, Some 128], [Some 64, Some 64]]) 128
              \<le> count (grid_tiles (result res)) 128)"
proof -
  let ?G = "[[Some 128, Some 128], [Some 64, Some (64::int)]]"
  have h1: "wf_grid ?G" by (simp add: wf_grid_def uniform_rows_def)
  have h2: "list_all (\<lambda>v. v \<le> TARGET_TILE) (tile_values (concat ?G))"
    by (simp add: TARGET_TILE_def)
  have run: "moveMapIn2048Rule ?G Left
       = Inr \<lparr>result = [[Some 128, Some 128], [Some 128, None]], isMoved = True, gained = 128\<rparr>"
    by (simp add: run_defs)
  have "TARGET_TILE < 2 * 128" by (simp add: TARGET_TILE_def)
  with move_keeps_ceiling[OF h1 h2, of Left]
  have "\<exists>res. moveMapIn2048Rule ?G Left = Inr res
          \<and> list_all (\<lambda>v. v \<le> TARGET_TILE) (tile_values (concat (result res)))
          \<and> count (grid_tiles ?G) 128 \<le> count (grid_tiles (result res)) 128"
    by blast
  with h1 h2 run show ?thesis by blast
qed

subsection \<open>C3: the moved flag\<close>

text \<open>
  C3. For every rectangular grid \<open>g\<close> and every direction, the move returns, and its flag
  \<open>isMoved\<close> is true if and only if the returned grid differs from \<open>g\<close> in at least one
  cell; so when \<open>isMoved\<close> is false the returned grid is \<open>g\<close>.
\<close>

theorem moved_iff_changed:
  assumes "wf_grid g"
  shows "\<exists>res. moveMapIn2048Rule g d = Inr res
           \<and> (isMoved res \<longleftrightarrow>
                (\<exists>r<length g. \<exists>c<length (hd g). result res ! r ! c \<noteq> g ! r ! c))
           \<and> (\<not> isMoved res \<longrightarrow> result res = g)"
proof -
  from assms have d: "dims g (length g) (length (hd g))" by (simp add: wf_grid_dims)
  define h where "h = turn (revertMapDeg d) (result (moveLeft (turn (rotateMapDeg d) g)))"
  have dh: "dims h (length g) (length (hd g))"
    unfolding h_def by (rule move_result_dims[OF d])
  define res where "res = \<lparr>result = h, isMoved = isMoved (moveLeft (turn (rotateMapDeg d) g)),
    gained = gained (moveLeft (turn (rotateMapDeg d) g))\<rparr>"
  have run: "moveMapIn2048Rule g d = Inr res"
    unfolding res_def h_def by (rule move_dims[OF d])
  have m: "isMoved res \<longleftrightarrow> result res \<noteq> g"
    using move_moved[OF d, of d] by (simp add: res_def h_def)
  have c: "result res \<noteq> g \<longleftrightarrow>
           (\<exists>r<length g. \<exists>c<length (hd g). result res ! r ! c \<noteq> g ! r ! c)"
    using dims_neq_iff[OF d dh] by (simp add: res_def)
  from m c have "isMoved res \<longleftrightarrow>
                 (\<exists>r<length g. \<exists>c<length (hd g). result res ! r ! c \<noteq> g ! r ! c)"
    by (rule trans)
  moreover from m have "\<not> isMoved res \<longrightarrow> result res = g" by blast
  ultimately show ?thesis using run by blast
qed

text \<open>A grid that a move to the left leaves alone, and that a move down changes.\<close>

theorem moved_iff_changed_witness:
  "wf_grid [[Some 2, Some 4], [Some 8, None]]
   \<and> (\<exists>res. moveMapIn2048Rule [[Some 2, Some 4], [Some 8, None]] Left = Inr res
          \<and> \<not> isMoved res \<and> result res = [[Some 2, Some 4], [Some 8, None]])
   \<and> (\<exists>res. moveMapIn2048Rule [[Some 2, Some 4], [Some 8, None]] Down = Inr res
          \<and> isMoved res
          \<and> (\<exists>r<length [[Some 2, Some 4], [Some 8, None :: Tile]].
               \<exists>c<length (hd [[Some 2, Some 4], [Some 8, None :: Tile]]).
                 result res ! r ! c \<noteq> [[Some 2, Some 4], [Some 8, None]] ! r ! c))"
proof -
  let ?G = "[[Some 2, Some 4], [Some 8, None :: Tile]]"
  have h: "wf_grid ?G" by (simp add: wf_grid_def uniform_rows_def)
  have runL: "moveMapIn2048Rule ?G Left
       = Inr \<lparr>result = [[Some 2, Some 4], [Some 8, None]], isMoved = False, gained = 0\<rparr>"
    by (simp add: run_defs)
  have runD: "moveMapIn2048Rule ?G Down
       = Inr \<lparr>result = [[Some 2, None], [Some 8, Some 4]], isMoved = True, gained = 0\<rparr>"
    by (simp add: run_defs)
  have 1: "\<exists>res. moveMapIn2048Rule ?G Left = Inr res \<and> \<not> isMoved res \<and> result res = ?G"
    using moved_iff_changed[OF h, of Left] runL by auto
  from moved_iff_changed[OF h, of Down] obtain res where
    res: "moveMapIn2048Rule ?G Down = Inr res"
      "isMoved res \<longleftrightarrow> (\<exists>r<length ?G. \<exists>c<length (hd ?G). result res ! r ! c \<noteq> ?G ! r ! c)"
    by blast
  have "res = \<lparr>result = [[Some 2, None], [Some 8, Some 4]], isMoved = True, gained = 0\<rparr>"
    using res(1) runD by simp
  then have "isMoved res" by simp
  then have "\<exists>r<length ?G. \<exists>c<length (hd ?G). result res ! r ! c \<noteq> ?G ! r ! c"
    by (rule iffD1[OF res(2)])
  with res(1) \<open>isMoved res\<close>
  have 2: "\<exists>res. moveMapIn2048Rule ?G Down = Inr res \<and> isMoved res
             \<and> (\<exists>r<length ?G. \<exists>c<length (hd ?G). result res ! r ! c \<noteq> ?G ! r ! c)"
    by blast
  from h 1 2 show ?thesis by blast
qed

subsection \<open>C4: the quarter turn\<close>

text \<open>
  C4, as the code has it. For every grid of \<open>R\<close> rows (at least one) with \<open>C\<close> cells each,
  the rotation by 90 degrees returns a grid with \<open>C\<close> rows of \<open>R\<close> cells each, whose cell at
  row \<open>c\<close>, column \<open>r\<close> is the input cell at row \<open>r\<close>, column \<open>C - c - 1\<close>.
\<close>

theorem rotate90_cells:
  assumes "uniform_rows g"
  shows "\<exists>h. rotateMap g Deg90 = Inr h
           \<and> length h = length (hd g)
           \<and> (\<forall>c<length (hd g). length (h ! c) = length g
                \<and> (\<forall>r<length g. h ! c ! r = g ! r ! (length (hd g) - c - 1)))"
  using rotateMap_turn[OF assms, of Deg90] by (simp add: turn_unfold)

text \<open>On a 2 by 3 grid: three rows of two cells, and the cell at row 0, column 1.\<close>

theorem rotate90_cells_witness:
  "uniform_rows [[Some 2, None, Some 4], [None, Some 8, Some 16]]
   \<and> (\<exists>h. rotateMap [[Some 2, None, Some 4], [None, Some 8, Some 16]] Deg90 = Inr h
          \<and> length h = 3 \<and> length (h ! 0) = 2
          \<and> h ! 0 ! 1 = [[Some 2, None, Some 4], [None, Some 8, Some 16]] ! 1 ! (3 - 0 - 1))"
proof -
  let ?G = "[[Some 2, None, Some 4], [None, Some 8, Some (16::int)]]"
  have h: "uniform_rows ?G" by (simp add: uniform_rows_def)
  from rotate90_cells[OF h] obtain x where
    x: "rotateMap ?G Deg90 = Inr x" "length x = length (hd ?G)"
       "\<forall>c<length (hd ?G). length (x ! c) = length ?G
          \<and> (\<forall>r<length ?G. x ! c ! r = ?G ! r ! (length (hd ?G) - c - 1))"
    by blast
  from x(3) have "length (x ! 0) = length ?G
          \<and> (\<forall>r<length ?G. x ! 0 ! r = ?G ! r ! (length (hd ?G) - 0 - 1))"
    by simp
  then have "length (x ! 0) = 2" "x ! 0 ! 1 = ?G ! 1 ! (3 - 0 - 1)" by simp_all
  with x(1,2) h show ?thesis by auto
qed

text \<open>
  C4 as it is written puts the input cell of row \<open>r\<close>, column \<open>C - c - 1\<close> at row \<open>r\<close>,
  column \<open>c\<close> of the output. On the grid of rows \<open>[2, 4]\<close> and \<open>[8, 16]\<close> the output cell at
  row 0, column 1 is 16, and the input cell at row 0, column \<open>2 - 1 - 1\<close> is 2.
\<close>

theorem rotate90_cells_counterexample:
  "rotateMap [[Some 2, Some 4], [Some 8, Some 16]] Deg90 = Inr [[Some 4, Some 16], [Some 2, Some 8]]
   \<and> [[Some 4, Some 16], [Some 2, Some (8::int)]] ! 0 ! 1
       \<noteq> [[Some 2, Some 4], [Some 8, Some 16]] ! 0 ! (2 - 1 - 1)"
  by (simp add: rotateMap_def arrayFrom_def cellAt_def Let_def)

subsection \<open>C5: the ceiling and the win target\<close>

text \<open>
  C5, as the code has it. The win target is the parameter \<open>t\<close> of \<open>reached\<close>, and the merge
  ceiling is the constant \<open>TARGET_TILE = 128\<close>, read by the row scan itself. A row move never
  creates a tile greater than \<open>TARGET_TILE\<close> (a tile of the output above it was a tile of the
  input), two equal tiles merge exactly when their double is at most \<open>TARGET_TILE\<close>, and
  \<open>reached g t\<close> holds exactly when some tile of \<open>g\<close> is at least \<open>t\<close>.
\<close>

theorem ceiling_is_TARGET_TILE:
  "TARGET_TILE = 128
   \<and> (Some v \<in> set (result (moveRowLeft row)) \<and> TARGET_TILE < v \<longrightarrow> Some v \<in> set row)
   \<and> result (moveRowLeft [Some w, Some w])
       = (if w * 2 \<le> TARGET_TILE then [Some (w * 2), None] else [Some w, Some w])
   \<and> (reached g t \<longleftrightarrow> (\<exists>r\<in>set g. \<exists>n. Some n \<in> set r \<and> t \<le> n))"
proof (intro conjI)
  show "TARGET_TILE = 128" by (simp add: TARGET_TILE_def)
next
  show "Some v \<in> set (result (moveRowLeft row)) \<and> TARGET_TILE < v \<longrightarrow> Some v \<in> set row"
  proof
    assume a: "Some v \<in> set (result (moveRowLeft row)) \<and> TARGET_TILE < v"
    define P where "P = spec_merged None row"
    have eq: "mset (tile_values (result (moveRowLeft row))) + mset P + mset P
              = mset (tile_values row) + mset (map (\<lambda>v. 2 * v) P)"
      using moveRowLeft_shape[of row] by (simp add: P_def)
    have "v \<in># mset (tile_values (result (moveRowLeft row))) + mset P + mset P"
      using a by (simp add: tile_values_set)
    then have "v \<in># mset (tile_values row) + mset (map (\<lambda>v. 2 * v) P)" by (simp only: eq)
    then consider "v \<in> set (tile_values row)" | p where "p \<in> set P" "v = 2 * p"
      by auto
    then show "Some v \<in> set row"
    proof cases
      case 1
      then show ?thesis by (simp add: tile_values_set)
    next
      case 2
      then have "v \<le> TARGET_TILE" using merged_bound[of p None row]
        by (simp add: P_def mult.commute)
      then show ?thesis using a by simp
    qed
  qed
next
  show "result (moveRowLeft [Some w, Some w])
       = (if w * 2 \<le> TARGET_TILE then [Some (w * 2), None] else [Some w, Some w])"
    by (simp add: moveRowLeft_def Let_def step_def init_acc_def orNull_def)
next
  show "reached g t \<longleftrightarrow> (\<exists>r\<in>set g. \<exists>n. Some n \<in> set r \<and> t \<le> n)"
    by (auto simp: reached_def list_ex_iff split: option.splits)
qed

text \<open>
  Two 256s stay; two 64s merge and two 128s do not; the same grid has reached 128 and has not
  reached 256.
\<close>

theorem ceiling_is_TARGET_TILE_witness:
  "Some 256 \<in> set (result (moveRowLeft [Some 256, Some 256, Some 64, Some 64]))
   \<and> TARGET_TILE < 256
   \<and> Some 256 \<in> set [Some 256, Some 256, Some 64, Some (64::int)]
   \<and> result (moveRowLeft [Some 64, Some 64]) = [Some 128, None]
   \<and> result (moveRowLeft [Some 128, Some 128]) = [Some 128, Some 128]
   \<and> reached [[Some 64, None], [None, Some 128]] 128
   \<and> \<not> reached [[Some 64, None], [None, Some 128]] 256"
proof -
  have 1: "Some 256 \<in> set (result (moveRowLeft [Some 256, Some 256, Some 64, Some 64]))"
    by (simp add: run_defs)
  have 2: "TARGET_TILE < 256" by (simp add: TARGET_TILE_def)
  have 3: "Some 256 \<in> set [Some 256, Some 256, Some 64, Some (64::int)]"
    using ceiling_is_TARGET_TILE[of 256 "[Some 256, Some 256, Some 64, Some 64]"] 1 2 by blast
  have 4: "result (moveRowLeft [Some 64, Some 64]) = [Some 128, None]"
    using ceiling_is_TARGET_TILE[of _ _ 64] by (simp add: TARGET_TILE_def)
  have 5: "result (moveRowLeft [Some 128, Some 128]) = [Some 128, Some 128]"
    using ceiling_is_TARGET_TILE[of _ _ 128] by (simp add: TARGET_TILE_def)
  have 6: "reached [[Some 64, None], [None, Some 128]] 128"
    using ceiling_is_TARGET_TILE[of _ _ _ "[[Some 64, None], [None, Some 128]]" 128]
    by (simp add: TARGET_TILE_def)
  have 7: "\<not> reached [[Some 64, None], [None, Some 128]] 256"
    using ceiling_is_TARGET_TILE[of _ _ _ "[[Some 64, None], [None, Some 128]]" 256]
    by (simp add: TARGET_TILE_def)
  from 1 2 3 4 5 6 7 show ?thesis by blast
qed

text \<open>
  C5 as it is written lets the ceiling be chosen. With the ceiling 64, the row
  \<open>[64, 64, 64, null]\<close>, whose tiles are all at most 64, would have to stay as it is; the
  code merges its first two tiles into 128.
\<close>

theorem ceiling_is_TARGET_TILE_counterexample:
  "list_all (\<lambda>v. v \<le> 64) (tile_values [Some 64, Some 64, Some 64, None])
   \<and> moveRowLeft [Some 64, Some 64, Some 64, None]
       = \<lparr>result = [Some 128, Some 64, None, None], isMoved = True, gained = 128\<rparr>
   \<and> \<not> list_all (\<lambda>v. v \<le> 64) (tile_values [Some 128, Some 64, None, None])"
  by (simp add: run_defs)

subsection \<open>C6: the score gained\<close>

text \<open>
  C6, as the code has it. For every grid and direction, the move returns and \<open>gained\<close> is
  the sum of the values of the merged tiles it creates: each merged pair of tiles of value
  \<open>v\<close> counts \<open>2 * v\<close>, and the tiles of the output are the tiles of the input with each
  merged pair replaced by its double. \<open>gained\<close> is even for all integer tiles, and it is at
  least 0 when moreover no tile is negative.
\<close>

theorem gained_is_merge_sum:
  assumes "wf_grid g"
  shows "\<exists>res. moveMapIn2048Rule g d = Inr res
           \<and> gained res = (\<Sum>v\<leftarrow>spec_merged_pairs g d. 2 * v)
           \<and> grid_tiles (result res) + mset (spec_merged_pairs g d) + mset (spec_merged_pairs g d)
               = grid_tiles g + mset (map (\<lambda>v. 2 * v) (spec_merged_pairs g d))
           \<and> even (gained res)
           \<and> (list_all (\<lambda>v. 0 \<le> v) (tile_values (concat g)) \<longrightarrow> 0 \<le> gained res)"
proof -
  from assms have d: "dims g (length g) (length (hd g))" by (simp add: wf_grid_dims)
  define res where "res = \<lparr>result = turn (revertMapDeg d) (result (moveLeft (turn (rotateMapDeg d) g))),
    isMoved = isMoved (moveLeft (turn (rotateMapDeg d) g)),
    gained = gained (moveLeft (turn (rotateMapDeg d) g))\<rparr>"
  have run: "moveMapIn2048Rule g d = Inr res"
    unfolding res_def by (rule move_dims[OF d])
  have sum: "gained res = (\<Sum>v\<leftarrow>spec_merged_pairs g d. 2 * v)"
    by (simp add: res_def moveLeft_gained spec_merged_pairs_dims[OF d])
  have tiles: "grid_tiles (result res) + mset (spec_merged_pairs g d) + mset (spec_merged_pairs g d)
               = grid_tiles g + mset (map (\<lambda>v. 2 * v) (spec_merged_pairs g d))"
    using move_tiles[OF d, of d] by (simp add: res_def)
  have ev: "even (gained res)" unfolding sum by (rule even_sum_doubles)
  have nonneg: "0 \<le> gained res" if "list_all (\<lambda>v. 0 \<le> v) (tile_values (concat g))"
    unfolding sum
  proof (rule sum_doubles_nonneg)
    fix v assume "v \<in> set (spec_merged_pairs g d)"
    then have "v \<in> set (tile_values (concat g))"
      using spec_merged_pairs_bound[OF d] by (simp add: grid_tiles_set)
    then show "0 \<le> v" using that by (simp add: list_all_iff)
  qed
  from run sum tiles ev nonneg show ?thesis by blast
qed

text \<open>A move to the left that merges a pair of 2s, of 4s and of 8s gains 28.\<close>

theorem gained_is_merge_sum_witness:
  "wf_grid [[Some 2, None, Some 2, Some 4], [None, Some 4, Some 4, None], [Some 8, None, None, Some 8]]
   \<and> list_all (\<lambda>v. 0 \<le> v) (tile_values (concat
        [[Some 2, None, Some 2, Some 4], [None, Some 4, Some 4, None], [Some 8, None, None, Some 8]]))
   \<and> spec_merged_pairs
        [[Some 2, None, Some 2, Some 4], [None, Some 4, Some 4, None], [Some 8, None, None, Some 8]]
        Left = [2, 4, 8]
   \<and> (\<exists>res. moveMapIn2048Rule
          [[Some 2, None, Some 2, Some 4], [None, Some 4, Some 4, None], [Some 8, None, None, Some 8]]
          Left = Inr res
        \<and> gained res = 28 \<and> even (gained res) \<and> 0 \<le> gained res)"
proof -
  let ?G = "[[Some 2, None, Some 2, Some 4], [None, Some 4, Some 4, None],
             [Some 8, None, None, Some (8::int)]]"
  have h: "wf_grid ?G" by (simp add: wf_grid_def uniform_rows_def)
  have p: "list_all (\<lambda>v. 0 \<le> v) (tile_values (concat ?G))" by simp
  have m: "spec_merged_pairs ?G Left = [2, 4, 8]"
    by (simp add: spec_merged_pairs_def spec_merged_rows_def run_defs)
  from gained_is_merge_sum[OF h, of Left] p
  have "\<exists>res. moveMapIn2048Rule ?G Left = Inr res
        \<and> gained res = (\<Sum>v\<leftarrow>spec_merged_pairs ?G Left. 2 * v) \<and> even (gained res) \<and> 0 \<le> gained res"
    by blast
  then have "\<exists>res. moveMapIn2048Rule ?G Left = Inr res
        \<and> gained res = 28 \<and> even (gained res) \<and> 0 \<le> gained res"
    unfolding m by simp
  with h p m show ?thesis by blast
qed

text \<open>
  C6 as it is written asks only that the tiles be integers for \<open>gained\<close> to be at least 0.
  The guard of the row scan bounds the double from above only: in the grid of the one row
  \<open>[-2, -2]\<close> the two tiles are equal and \<open>-4 \<le> 128\<close>, so a move to the left merges them
  and gains \<open>-4\<close>.
\<close>

theorem gained_is_merge_sum_counterexample:
  "wf_grid [[Some (- 2), Some (- 2)]]
   \<and> moveMapIn2048Rule [[Some (- 2), Some (- 2)]] Left
       = Inr \<lparr>result = [[Some (- 4), None]], isMoved = True, gained = - 4\<rparr>
   \<and> \<not> (0::int) \<le> - 4"
  by (simp add: wf_grid_def uniform_rows_def run_defs)

subsection \<open>C7: the second concrete scenario\<close>

text \<open>
  C7. Moving the row \<open>[2, null, 2, 2]\<close> left gives exactly \<open>[4, 2, null, null]\<close> with
  \<open>gained = 4\<close> and \<open>isMoved = true\<close>: the leftmost pair merges, and the trailing 2 does not
  merge with the 4 just created.
\<close>

theorem scenario_two:
  "moveRowLeft [Some 2, None, Some 2, Some 2]
   = \<lparr>result = [Some 4, Some 2, None, None], isMoved = True, gained = 4\<rparr>"
  by (simp add: moveRowLeft_def Let_def step_def init_acc_def orNull_def TARGET_TILE_def)

subsection \<open>C8: a move without merges keeps the tiles\<close>

text \<open>
  C8. For every grid of positive tiles and every direction, the move returns, and if its
  \<open>gained\<close> is 0 then the multiset of tile values of the returned grid is that of the input.
\<close>

theorem no_merge_conserves_tiles:
  assumes "wf_grid g" and "list_all (\<lambda>v. 0 < v) (tile_values (concat g))"
  shows "\<exists>res. moveMapIn2048Rule g d = Inr res
           \<and> (gained res = 0 \<longrightarrow> grid_tiles (result res) = grid_tiles g)"
proof -
  from assms have d: "dims g (length g) (length (hd g))" by (simp add: wf_grid_dims)
  define res where "res = \<lparr>result = turn (revertMapDeg d) (result (moveLeft (turn (rotateMapDeg d) g))),
    isMoved = isMoved (moveLeft (turn (rotateMapDeg d) g)),
    gained = gained (moveLeft (turn (rotateMapDeg d) g))\<rparr>"
  have run: "moveMapIn2048Rule g d = Inr res"
    unfolding res_def by (rule move_dims[OF d])
  have sum: "gained res = (\<Sum>v\<leftarrow>spec_merged_pairs g d. 2 * v)"
    by (simp add: res_def moveLeft_gained spec_merged_pairs_dims[OF d])
  have tiles: "grid_tiles (result res) + mset (spec_merged_pairs g d) + mset (spec_merged_pairs g d)
               = grid_tiles g + mset (map (\<lambda>v. 2 * v) (spec_merged_pairs g d))"
    using move_tiles[OF d, of d] by (simp add: res_def)
  have pos: "0 < v" if "v \<in> set (spec_merged_pairs g d)" for v
  proof -
    have "v \<in> set (tile_values (concat g))"
      using spec_merged_pairs_bound[OF d that] by (simp add: grid_tiles_set)
    then show ?thesis using assms(2) by (simp add: list_all_iff)
  qed
  have "grid_tiles (result res) = grid_tiles g" if "gained res = 0"
  proof -
    have "spec_merged_pairs g d = []"
      by (rule sum_doubles_zero[OF pos]) (use that sum in simp_all)
    then show ?thesis using tiles by simp
  qed
  with run show ?thesis by blast
qed

text \<open>A move down that slides tiles and merges none.\<close>

theorem no_merge_conserves_tiles_witness:
  "wf_grid [[Some 2, None, Some 2, Some 4], [None, Some 4, Some 4, None], [Some 8, None, None, Some 8]]
   \<and> list_all (\<lambda>v. 0 < v) (tile_values (concat
        [[Some 2, None, Some 2, Some 4], [None, Some 4, Some 4, None], [Some 8, None, None, Some 8]]))
   \<and> (\<exists>res. moveMapIn2048Rule
          [[Some 2, None, Some 2, Some 4], [None, Some 4, Some 4, None], [Some 8, None, None, Some 8]]
          Down = Inr res
        \<and> gained res = 0
        \<and> grid_tiles (result res) = grid_tiles
            [[Some 2, None, Some 2, Some 4], [None, Some 4, Some 4, None], [Some 8, None, None, Some 8]])"
proof -
  let ?G = "[[Some 2, None, Some 2, Some 4], [None, Some 4, Some 4, None],
             [Some 8, None, None, Some (8::int)]]"
  have h: "wf_grid ?G" by (simp add: wf_grid_def uniform_rows_def)
  have p: "list_all (\<lambda>v. 0 < v) (tile_values (concat ?G))" by simp
  have run: "moveMapIn2048Rule ?G Down
       = Inr \<lparr>result = [[None, None, None, None], [Some 2, None, Some 2, Some 4],
                         [Some 8, Some 4, Some 4, Some 8]], isMoved = True, gained = 0\<rparr>"
    by (simp add: run_defs)
  from no_merge_conserves_tiles[OF h p, of Down] obtain res where
    res: "moveMapIn2048Rule ?G Down = Inr res"
         "gained res = 0 \<longrightarrow> grid_tiles (result res) = grid_tiles ?G"
    by blast
  have "res = \<lparr>result = [[None, None, None, None], [Some 2, None, Some 2, Some 4],
                         [Some 8, Some 4, Some 4, Some 8]], isMoved = True, gained = 0\<rparr>"
    using res(1) run by simp
  then have z: "gained res = 0" by simp
  with res(2) have "grid_tiles (result res) = grid_tiles ?G" by blast
  with res(1) z h p show ?thesis by blast
qed

subsection \<open>C9: the move is total\<close>

text \<open>
  C9, as the code has it. For every rectangular grid with at least one row and at least one
  column, and each of the four directions, the move returns a result: no read of the rotations
  is out of range and no \<^verbatim>\<open>TypeError\<close> is raised. The returned grid has the dimensions of
  the input. In the row step, \<^verbatim>\<open>out\<close> is as long as the row, so the reads \<^verbatim>\<open>out[i]\<close> are in
  range; the reads \<^verbatim>\<open>arr[i] ?? null\<close> past the end of \<^verbatim>\<open>arr\<close> are the padding of the row
  (\<open>orNull\<close>).
\<close>

theorem move_total:
  assumes "wf_grid g"
  shows "(\<exists>res. moveMapIn2048Rule g d = Inr res
            \<and> length (result res) = length g
            \<and> list_all (\<lambda>row. length row = length (hd g)) (result res))
         \<and> length (result (moveRowLeft row)) = length row"
proof -
  from assms have d: "dims g (length g) (length (hd g))" by (simp add: wf_grid_dims)
  define h where "h = turn (revertMapDeg d) (result (moveLeft (turn (rotateMapDeg d) g)))"
  have dh: "dims h (length g) (length (hd g))"
    unfolding h_def by (rule move_result_dims[OF d])
  then have "length h = length g" "list_all (\<lambda>row. length row = length (hd g)) h"
    by (simp_all add: dims_def list_all_length)
  then show ?thesis using move_dims[OF d, of d] by (simp add: h_def)
qed

text \<open>A move up on a 3 by 4 grid, and a row of four cells.\<close>

theorem move_total_witness:
  "wf_grid [[Some 2, None, Some 2, Some 4], [None, Some 4, Some 4, None], [Some 8, None, None, Some 8]]
   \<and> (\<exists>res. moveMapIn2048Rule
          [[Some 2, None, Some 2, Some 4], [None, Some 4, Some 4, None], [Some 8, None, None, Some 8]]
          Up = Inr res
        \<and> length (result res) = 3
        \<and> list_all (\<lambda>row. length row = 4) (result res))
   \<and> length (result (moveRowLeft [Some 2, None, None, None])) = 4"
proof -
  have n: "(3::nat) = Suc (Suc (Suc 0))" "(4::nat) = Suc (Suc (Suc (Suc 0)))" by simp_all
  let ?G = "[[Some 2, None, Some 2, Some 4], [None, Some 4, Some 4, None],
             [Some 8, None, None, Some (8::int)]]"
  have h: "wf_grid ?G" by (simp add: wf_grid_def uniform_rows_def)
  from h move_total[OF h, of Up "[Some 2, None, None, None]"] show ?thesis unfolding n by simp
qed

text \<open>
  C9 as it is written asks for rows of one length and at least one row. The grid of one row
  without cells is such a grid; rotated by 90 degrees it has no row, and the second rotation
  of a move up reads \<^verbatim>\<open>map[0].length\<close> from it.
\<close>

theorem move_total_counterexample:
  "uniform_rows [[]] \<and> moveMapIn2048Rule [[]] Up = Inl TypeError"
  by (simp add: uniform_rows_def moveMapIn2048Rule_def rotateMap_def arrayFrom_def moveLeft_def
      Let_def)

subsection \<open>C10: rows and grids come out compacted\<close>

text \<open>
  C10. In every row returned by \<open>moveRowLeft\<close> all empty cells come after all non-empty
  cells, also when the ceiling blocked a merge; and for every grid and direction the move
  returns a grid in which no non-empty cell has an empty cell between it and the wall the move
  pushes towards.
\<close>

theorem move_leaves_no_gaps:
  "compacted (result (moveRowLeft row))
   \<and> (wf_grid g \<longrightarrow> (\<exists>res. moveMapIn2048Rule g d = Inr res \<and> no_gaps d (result res)))"
proof
  show "compacted (result (moveRowLeft row))" by (rule moveRowLeft_compacted)
next
  show "wf_grid g \<longrightarrow> (\<exists>res. moveMapIn2048Rule g d = Inr res \<and> no_gaps d (result res))"
  proof
    assume "wf_grid g"
    then have d: "dims g (length g) (length (hd g))" by (simp add: wf_grid_dims)
    show "\<exists>res. moveMapIn2048Rule g d = Inr res \<and> no_gaps d (result res)"
      using move_dims[OF d, of d] move_no_gaps[OF d, of d] by simp
  qed
qed

text \<open>A row whose two 128s cannot merge, and a move down on a 3 by 4 grid.\<close>

theorem move_leaves_no_gaps_witness:
  "result (moveRowLeft [None, Some 128, None, Some 128]) = [Some 128, Some 128, None, None]
   \<and> compacted (result (moveRowLeft [None, Some 128, None, Some 128]))
   \<and> wf_grid [[Some 2, None, Some 2, Some 4], [None, Some 4, Some 4, None], [Some 8, None, None, Some 8]]
   \<and> (\<exists>res. moveMapIn2048Rule
          [[Some 2, None, Some 2, Some 4], [None, Some 4, Some 4, None], [Some 8, None, None, Some 8]]
          Down = Inr res
        \<and> no_gaps Down (result res))"
proof -
  let ?G = "[[Some 2, None, Some 2, Some 4], [None, Some 4, Some 4, None],
             [Some 8, None, None, Some (8::int)]]"
  have h: "wf_grid ?G" by (simp add: wf_grid_def uniform_rows_def)
  have r: "result (moveRowLeft [None, Some 128, None, Some 128]) = [Some 128, Some 128, None, None]"
    by (simp add: run_defs)
  from move_leaves_no_gaps[of "[None, Some 128, None, Some 128]" ?G Down] h
  have "compacted (result (moveRowLeft [None, Some 128, None, Some 128]))"
    and "\<exists>res. moveMapIn2048Rule ?G Down = Inr res \<and> no_gaps Down (result res)"
    by blast+
  with h r show ?thesis by blast
qed

end
